theory Spec2Isabelle
  imports Main "HOL-Library.AList"
begin

section \<open>ca2a: a command-line client for A2A agents\<close>

text \<open>
  A shallow embedding of \<^verbatim>\<open>ca2a.py\<close>: the item parser \<^verbatim>\<open>parse_items\<close>,
  the dispatcher \<^verbatim>\<open>Client.invoke\<close> with \<^verbatim>\<open>show_request\<close>,
  \<^verbatim>\<open>show_response\<close> and \<^verbatim>\<open>print_json\<close>, and \<^verbatim>\<open>main\<close>.

  Strings are \<open>char list\<close>. The two characters the pattern singles out, \<open>:\<close> and
  \<open>=\<close>, are ASCII and never occur inside a multi-byte UTF-8 sequence, and the pattern
  otherwise only asks whether a run of characters is empty, so matching on bytes and
  matching on Python's code points split an item at the same places.
\<close>

subsection \<open>Values\<close>

text \<open>
  The values \<^verbatim>\<open>json.loads\<close> returns: \<^verbatim>\<open>None\<close>, \<^verbatim>\<open>bool\<close>,
  \<^verbatim>\<open>int\<close>, \<^verbatim>\<open>float\<close> (kept as mantissa and binary exponent),
  \<^verbatim>\<open>str\<close>, \<^verbatim>\<open>list\<close> and \<^verbatim>\<open>dict\<close> (in insertion order). A value
  stored by \<^verbatim>\<open>key=value\<close> is a Python \<^verbatim>\<open>str\<close>, hence \<open>JStr\<close>.
\<close>

datatype json =
    JNull
  | JBool bool
  | JInt int
  | JFloat int int
  | JStr string
  | JList "json list"
  | JDict "(string \<times> json) list"

text \<open>
  The \<^verbatim>\<open>ValueError\<close>s of the module, one constructor per message, each carrying
  the text the message interpolates; \<open>ValidationError\<close> is pydantic's, raised by
  \<^verbatim>\<open>MessageSendParams.model_validate\<close>, and \<open>TransportError\<close> stands for whatever
  the A2A client raises. The last two are what a library call can raise besides the
  exception the module expects of it: a \<^verbatim>\<open>ValueError\<close> of the library's own, with
  its message, and an exception of any other class, with its name.
\<close>

datatype error =
    InvalidItem string
  | InvalidJSONValue string
  | UnsupportedSeparator string
  | UnsupportedMethod string
  | UnsupportedResponse string
  | ValidationError
  | TransportError string
  | LibraryValueError string
  | LibraryException string

text \<open>
  What a call of \<^verbatim>\<open>json.loads\<close> does: it returns the decoded value, it raises
  \<^verbatim>\<open>json.JSONDecodeError\<close>, or it raises something else (\<^verbatim>\<open>RecursionError\<close> on
  deep nesting, a plain \<^verbatim>\<open>ValueError\<close> on an integer literal beyond the digit
  limit), which \<^verbatim>\<open>except json.JSONDecodeError\<close> does not catch.
\<close>

datatype decoded =
    Decoded json
  | JSONDecodeError
  | Raised error

text \<open>
  A Python \<^verbatim>\<open>dict\<close> keeps its keys in insertion order; \<^verbatim>\<open>d[k] = v\<close> replaces
  the value in place when \<open>k\<close> is present and appends the pair otherwise, which is
  \<^const>\<open>AList.update\<close>.
\<close>

type_synonym params = "(string \<times> json) list"
type_synonym headers = "(string \<times> string) list"

subsection \<open>The pattern\<close>

text \<open>
  \<^verbatim>\<open>PATTERN = re.compile(r"^([^:=]+)(=|:=|:)(.+)$", re.DOTALL)\<close>

  The matcher of \<^verbatim>\<open>re\<close> backtracks: a greedy quantifier tries the longest
  repetition first and gives characters back one at a time, an alternation tries its
  branches from left to right, and the first complete match is the result. The three
  functions below list the ways each part of the pattern can match, in the order the
  matcher tries them; \<open>PATTERN_match\<close> returns the groups of the first.
\<close>

definition is_sep_char :: "char \<Rightarrow> bool" where
  "is_sep_char c \<longleftrightarrow> c = CHR '':'' \<or> c = CHR ''=''"

text \<open>
  \<^verbatim>\<open>$\<close> without \<^verbatim>\<open>re.MULTILINE\<close>: the end of the string, or the position just
  before a newline that ends the string.
\<close>

definition at_end :: "string \<Rightarrow> bool" where
  "at_end rest \<longleftrightarrow> rest = [] \<or> rest = [CHR 0x0A]"

text \<open>
  \<^verbatim>\<open>(.+)$\<close> under \<^verbatim>\<open>re.DOTALL\<close>: every character matches the dot, so the group
  takes \<open>m\<close> characters for \<open>m\<close> from the whole rest down to one, and \<^verbatim>\<open>$\<close> must hold
  of what is left.
\<close>

definition value_candidates :: "string \<Rightarrow> string list" where
  "value_candidates rest =
     map (\<lambda>m. take m rest)
       (filter (\<lambda>m. at_end (drop m rest)) (rev [1 ..< Suc (length rest)]))"

text \<open>\<^verbatim>\<open>(=|:=|:)\<close> followed by \<^verbatim>\<open>(.+)$\<close>.\<close>

definition sep_candidates :: "string \<Rightarrow> (string \<times> string) list" where
  "sep_candidates rest =
     concat (map (\<lambda>sep. if take (length sep) rest = sep
                         then map (\<lambda>v. (sep, v)) (value_candidates (drop (length sep) rest))
                         else [])
               [''='', '':='', '':''])"

text \<open>
  \<^verbatim>\<open>^([^:=]+)\<close>: the longest run of characters other than \<open>:\<close> and \<open>=\<close> at the
  start of the item, then each shorter one down to a single character.
\<close>

definition key_candidates :: "string \<Rightarrow> nat list" where
  "key_candidates item =
     rev [1 ..< Suc (length (takeWhile (\<lambda>c. \<not> is_sep_char c) item))]"

definition match_candidates :: "string \<Rightarrow> (string \<times> string \<times> string) list" where
  "match_candidates item =
     concat (map (\<lambda>n. map (\<lambda>(sep, v). (take n item, sep, v)) (sep_candidates (drop n item)))
               (key_candidates item))"

text \<open>\<^verbatim>\<open>PATTERN.match(item)\<close>, with \<^verbatim>\<open>match.groups()\<close> as the result.\<close>

definition PATTERN_match :: "string \<Rightarrow> (string \<times> string \<times> string) option" where
  "PATTERN_match item = (case match_candidates item of [] \<Rightarrow> None | g # _ \<Rightarrow> Some g)"

subsection \<open>\<^verbatim>\<open>parse_items\<close>\<close>

text \<open>
  \<^verbatim>\<open>json.loads\<close> belongs to the Python library, not to this module: it is the parameter
  \<open>loads\<close>. Of its three outcomes the \<^verbatim>\<open>try\<close> of \<^verbatim>\<open>parse\<close> turns
  \<^verbatim>\<open>json.JSONDecodeError\<close> into the \<^verbatim>\<open>ValueError\<close> "Invalid JSON value" and lets
  any other exception through as it is.

  The inner function \<^verbatim>\<open>parse(item)\<close> assigns to the two dictionaries of the enclosing
  call; here it takes them and returns them.
\<close>

fun parse :: "(string \<Rightarrow> decoded) \<Rightarrow> string \<Rightarrow> params \<times> headers \<Rightarrow> error + params \<times> headers" where
  "parse loads item (params, headers) =
     (case PATTERN_match item of
        None \<Rightarrow> Inl (InvalidItem item)
      | Some (key, separator, val) \<Rightarrow>
          if separator = ''='' then Inr (AList.update key (JStr val) params, headers)
          else if separator = '':='' then
            (case loads val of
               Decoded parsed_value \<Rightarrow> Inr (AList.update key parsed_value params, headers)
             | JSONDecodeError \<Rightarrow> Inl (InvalidJSONValue val)
             | Raised exc \<Rightarrow> Inl exc)
          else if separator = '':'' then Inr (params, AList.update key val headers)
          else Inl (UnsupportedSeparator separator))"

text \<open>\<^verbatim>\<open>for item in items: parse(item)\<close>; an exception leaves the loop and the call.\<close>

fun parse_loop :: "(string \<Rightarrow> decoded) \<Rightarrow> string list \<Rightarrow> params \<times> headers \<Rightarrow> error + params \<times> headers" where
  "parse_loop loads [] st = Inr st"
| "parse_loop loads (item # items) st =
     (case parse loads item st of
        Inl e \<Rightarrow> Inl e
      | Inr st' \<Rightarrow> parse_loop loads items st')"

definition parse_items :: "(string \<Rightarrow> decoded) \<Rightarrow> string list \<Rightarrow> error + params \<times> headers" where
  "parse_items loads items = parse_loop loads items ([], [])"

subsection \<open>What the dispatcher talks to\<close>

text \<open>
  The request and response classes come from the \<^verbatim>\<open>a2a\<close> package. A request is its
  \<^verbatim>\<open>id\<close> and its validated \<^verbatim>\<open>params\<close>. \<^verbatim>\<open>get_result\<close> matches on
  \<^verbatim>\<open>resp.root\<close>, so a response is the class of its root with the field that is read
  from it (\<^verbatim>\<open>error\<close> or \<^verbatim>\<open>result\<close>); \<open>OtherResponse\<close> is a root of any other
  class, the \<^verbatim>\<open>case _\<close> of \<^verbatim>\<open>get_result\<close>.
\<close>

datatype request =
    SendMessageRequest string json
  | SendStreamingMessageRequest string json

datatype envelope =
    JSONRPCErrorResponse json
  | SendMessageSuccessResponse json
  | SendStreamingMessageSuccessResponse json
  | OtherResponse json

text \<open>The objects handed to \<^verbatim>\<open>print_json\<close>.\<close>

datatype model =
    RequestModel request
  | ResponseModel envelope
  | PayloadModel json

text \<open>
  What \<^verbatim>\<open>show_response\<close> receives: the object \<^verbatim>\<open>send_message\<close> returned, or the
  asynchronous generator \<^verbatim>\<open>send_message_streaming\<close> returned. A generator is the
  chunks it yields, in order, and how it ends: \<open>None\<close> when it is exhausted, \<open>Some e\<close>
  when the transport raises \<open>e\<close> after the last chunk. A generator that never ends has
  no exit path and is not represented.
\<close>

datatype response =
    Single (single: envelope)
  | AsyncIterator (chunks: "envelope list") (stream_end: "error option")

text \<open>
  What a run does to the outside, in order. \<open>HttpClientOpened\<close> is
  \<^verbatim>\<open>httpx.AsyncClient(headers=...)\<close>; \<open>HttpClientClosed\<close> would be its
  \<^verbatim>\<open>aclose()\<close> (or leaving an \<^verbatim>\<open>async with\<close> block). \<open>SendMessage\<close> and
  \<open>SendMessageStreaming\<close> are the two calls on the A2A client, \<open>ChunkReceived\<close> is one
  step of \<^verbatim>\<open>async for chunk in response\<close>, and \<open>Print\<close> is one call of
  \<^verbatim>\<open>print\<close>.
\<close>

datatype event =
    HttpClientOpened "headers option"
  | HttpClientClosed
  | SendMessage request
  | SendMessageStreaming request
  | ChunkReceived envelope
  | Print string

text \<open>
  The library functions the module calls, as parameters: \<^verbatim>\<open>json.loads\<close>,
  \<^verbatim>\<open>MessageSendParams.model_validate\<close> (\<open>None\<close> for pydantic's
  \<^verbatim>\<open>ValidationError\<close>), \<^verbatim>\<open>str(uuid4())\<close>, the two calls of \<^verbatim>\<open>A2AClient\<close>,
  \<^verbatim>\<open>model_dump_json(indent=..., exclude_none=True)\<close> with the indentation as its
  first argument, \<^verbatim>\<open>sys.stdout.isatty()\<close>, and \<^verbatim>\<open>highlight\<close> with the lexer and
  formatter the module passes.
\<close>

record world =
  json_loads :: "string \<Rightarrow> decoded"
  model_validate :: "params \<Rightarrow> json option"
  uuid4 :: string
  send_message :: "request \<Rightarrow> error + envelope"
  send_message_streaming :: "request \<Rightarrow> envelope list \<times> error option"
  model_dump_json :: "nat option \<Rightarrow> model \<Rightarrow> string"
  isatty :: bool
  highlight :: "string \<Rightarrow> string"

subsection \<open>\<^verbatim>\<open>Client\<close>\<close>

definition METHODS :: "string list" where
  "METHODS = [''message/send'', ''message/stream'']"

text \<open>
  The fields of \<^verbatim>\<open>Client\<close>; \<^verbatim>\<open>method\<close> is \<open>method_name\<close> here, the
  bare word being reserved.
\<close>

record Client =
  url :: string
  method_name :: string
  params :: params
  headers :: headers

definition print_json :: "world \<Rightarrow> model \<Rightarrow> event list" where
  "print_json w result =
     (let json_str = model_dump_json w (Some 2) result
      in if \<not> isatty w then [Print json_str]
         else [Print (highlight w json_str)])"

definition is_async_iterator :: "response \<Rightarrow> bool" where
  "is_async_iterator obj = (case obj of AsyncIterator _ _ \<Rightarrow> True | Single _ \<Rightarrow> False)"

definition show_request :: "world \<Rightarrow> request \<Rightarrow> bool \<Rightarrow> event list" where
  "show_request w request verbose =
     (if verbose then Print ''Request:'' # print_json w (RequestModel request) else [])"

definition get_result :: "world \<Rightarrow> envelope \<Rightarrow> error + json" where
  "get_result w resp =
     (case resp of
        JSONRPCErrorResponse err \<Rightarrow> Inr err
      | SendMessageSuccessResponse result \<Rightarrow> Inr result
      | SendStreamingMessageSuccessResponse result \<Rightarrow> Inr result
      | OtherResponse _ \<Rightarrow>
          Inl (UnsupportedResponse (model_dump_json w None (ResponseModel resp))))"

text \<open>
  \<^verbatim>\<open>async for chunk in response: print_json(chunk)\<close>, the loop of the verbose branch.
\<close>

fun print_chunks :: "world \<Rightarrow> envelope list \<Rightarrow> error option \<Rightarrow> event list \<times> (error + unit)" where
  "print_chunks w [] ending = ([], case ending of None \<Rightarrow> Inr () | Some e \<Rightarrow> Inl e)"
| "print_chunks w (chunk # rest) ending =
     (case print_chunks w rest ending of
        (evs, r) \<Rightarrow> (ChunkReceived chunk # print_json w (ResponseModel chunk) @ evs, r))"

text \<open>
  \<^verbatim>\<open>async for chunk in response: result = get_result(chunk); print_json(result)\<close>, the
  loop of the other branch; the \<^verbatim>\<open>ValueError\<close> of \<^verbatim>\<open>get_result\<close> leaves it.
\<close>

fun print_chunk_results :: "world \<Rightarrow> envelope list \<Rightarrow> error option \<Rightarrow> event list \<times> (error + unit)" where
  "print_chunk_results w [] ending = ([], case ending of None \<Rightarrow> Inr () | Some e \<Rightarrow> Inl e)"
| "print_chunk_results w (chunk # rest) ending =
     (case get_result w chunk of
        Inl e \<Rightarrow> ([ChunkReceived chunk], Inl e)
      | Inr result \<Rightarrow>
          (case print_chunk_results w rest ending of
             (evs, r) \<Rightarrow> (ChunkReceived chunk # print_json w (PayloadModel result) @ evs, r)))"

definition show_response :: "world \<Rightarrow> response \<Rightarrow> bool \<Rightarrow> event list \<times> (error + unit)" where
  "show_response w response verbose =
     (if verbose then
        (if is_async_iterator response then
           (case print_chunks w (chunks response) (stream_end response) of
              (evs, r) \<Rightarrow> (Print ''Response:'' # evs, r))
         else (Print ''Response:'' # print_json w (ResponseModel (single response)), Inr ()))
      else
        (if is_async_iterator response then
           print_chunk_results w (chunks response) (stream_end response)
         else
           (case get_result w (single response) of
              Inl e \<Rightarrow> ([], Inl e)
            | Inr result \<Rightarrow> (print_json w (PayloadModel result), Inr ()))))"

text \<open>
  \<^verbatim>\<open>Client.invoke\<close>. The HTTP client is created first, with
  \<^verbatim>\<open>headers=self.headers or None\<close>; creating the \<^verbatim>\<open>A2AClient\<close> around it does
  nothing to the outside. The method has no \<^verbatim>\<open>try\<close>, no \<^verbatim>\<open>async with\<close> and
  no call of \<^verbatim>\<open>aclose\<close>, so an exception ends it where it is raised.
\<close>

definition invoke :: "world \<Rightarrow> Client \<Rightarrow> bool \<Rightarrow> event list \<times> (error + unit)" where
  "invoke w self verbose =
     (let opened = [HttpClientOpened (if headers self = [] then None else Some (headers self))]
      in if method_name self = ''message/send'' then
           (case model_validate w (params self) of
              None \<Rightarrow> (opened, Inl ValidationError)
            | Some validated \<Rightarrow>
                let request = SendMessageRequest (uuid4 w) validated;
                    sent = opened @ show_request w request verbose @ [SendMessage request]
                in (case send_message w request of
                      Inl e \<Rightarrow> (sent, Inl e)
                    | Inr resp \<Rightarrow>
                        (case show_response w (Single resp) verbose of
                           (evs, r) \<Rightarrow> (sent @ evs, r))))
         else if method_name self = ''message/stream'' then
           (case model_validate w (params self) of
              None \<Rightarrow> (opened, Inl ValidationError)
            | Some validated \<Rightarrow>
                let request = SendStreamingMessageRequest (uuid4 w) validated;
                    sent = opened @ show_request w request verbose @ [SendMessageStreaming request]
                in (case send_message_streaming w request of
                      (cs, ending) \<Rightarrow>
                        (case show_response w (AsyncIterator cs ending) verbose of
                           (evs, r) \<Rightarrow> (sent @ evs, r))))
         else (opened, Inl (UnsupportedMethod (method_name self))))"

subsection \<open>\<^verbatim>\<open>main\<close>\<close>

text \<open>
  The exceptions \<^verbatim>\<open>except ValueError\<close> catches: the module's own, pydantic's
  \<^verbatim>\<open>ValidationError\<close> (a subclass of \<^verbatim>\<open>ValueError\<close>) and a library's
  \<^verbatim>\<open>ValueError\<close>.
\<close>

fun is_ValueError :: "error \<Rightarrow> bool" where
  "is_ValueError (TransportError _) = False"
| "is_ValueError (LibraryException _) = False"
| "is_ValueError _ = True"

text \<open>
  How the process ends: \<^verbatim>\<open>main\<close> returns; \<^verbatim>\<open>parser.error\<close> prints the usage
  with a message and exits with status 2, for a method outside \<^verbatim>\<open>METHODS\<close> or for
  a \<^verbatim>\<open>ValueError\<close> of \<^verbatim>\<open>parse_items\<close>; or an exception leaves \<^verbatim>\<open>main\<close>
  uncaught, from \<^verbatim>\<open>parse_items\<close> when it is not a \<^verbatim>\<open>ValueError\<close>, or from
  \<^verbatim>\<open>invoke\<close> through \<^verbatim>\<open>asyncio.run\<close>.
\<close>

datatype ending =
    Returned
  | InvalidMethodExit string
  | InvalidItemsExit error
  | Uncaught error

text \<open>
  \<^verbatim>\<open>main\<close> after \<^verbatim>\<open>parser.parse_args()\<close>, on \<^verbatim>\<open>args.url\<close>,
  \<^verbatim>\<open>args.method\<close>, \<^verbatim>\<open>args.items\<close> and \<^verbatim>\<open>args.verbose\<close>.
\<close>

definition main :: "world \<Rightarrow> string \<Rightarrow> string \<Rightarrow> string list \<Rightarrow> bool \<Rightarrow> event list \<times> ending" where
  "main w args_url args_method args_items args_verbose =
     (if args_method \<notin> set METHODS then ([], InvalidMethodExit args_method)
      else case parse_items (json_loads w) args_items of
             Inl exc \<Rightarrow>
               (if is_ValueError exc then ([], InvalidItemsExit exc) else ([], Uncaught exc))
           | Inr (ps, hs) \<Rightarrow>
               (case invoke w \<lparr>url = args_url, method_name = args_method, params = ps, headers = hs\<rparr>
                       args_verbose of
                  (evs, Inl exc) \<Rightarrow> (evs, Uncaught exc)
                | (evs, Inr _) \<Rightarrow> (evs, Returned)))"

subsection \<open>Counting and sample surroundings\<close>

text \<open>The events that go to the agent or come from it.\<close>

fun is_transport_call :: "event \<Rightarrow> bool" where
  "is_transport_call (SendMessage _) = True"
| "is_transport_call (SendMessageStreaming _) = True"
| "is_transport_call (ChunkReceived _) = True"
| "is_transport_call _ = False"

text \<open>
  The HTTP clients that a run has opened and not closed: the \<open>HttpClientOpened\<close> events
  less the \<open>HttpClientClosed\<close> events.
\<close>

fun is_opened :: "event \<Rightarrow> bool" where
  "is_opened (HttpClientOpened _) = True"
| "is_opened _ = False"

fun is_closed :: "event \<Rightarrow> bool" where
  "is_closed HttpClientClosed = True"
| "is_closed _ = False"

definition open_clients :: "event list \<Rightarrow> int" where
  "open_clients evs = int (length (filter is_opened evs)) - int (length (filter is_closed evs))"

text \<open>Events that neither open nor close a client.\<close>

definition quiet :: "event list \<Rightarrow> bool" where
  "quiet evs \<longleftrightarrow> filter is_opened evs = [] \<and> filter is_closed evs = []"

text \<open>The first element of a list of candidates, if there is one.\<close>

definition first_of :: "'a list \<Rightarrow> 'a option" where
  "first_of xs = (case xs of [] \<Rightarrow> None | x # _ \<Rightarrow> Some x)"

text \<open>
  The theorems below hold for every \<open>world\<close>. To run the functions on concrete items a
  concrete one is needed; this one answers as \<^verbatim>\<open>json.loads\<close> does on the two
  literals the examples decode, and is applied to no other text that is valid JSON.
\<close>

definition sample_loads :: "string \<Rightarrow> decoded" where
  "sample_loads s =
     (if s = ''30'' then Decoded (JInt 30)
      else if s = ''true'' then Decoded (JBool True)
      else JSONDecodeError)"

definition sample_dump :: "nat option \<Rightarrow> model \<Rightarrow> string" where
  "sample_dump indent m =
     (case m of
        RequestModel _ \<Rightarrow> ''request''
      | ResponseModel _ \<Rightarrow> ''response''
      | PayloadModel j \<Rightarrow> (case j of JStr s \<Rightarrow> s | _ \<Rightarrow> ''payload''))"

definition sample_world :: world where
  "sample_world =
     \<lparr>json_loads = sample_loads,
      model_validate = (\<lambda>ps. Some (JDict ps)),
      uuid4 = ''0001'',
      send_message = (\<lambda>request. Inr (SendMessageSuccessResponse (JStr ''pong''))),
      send_message_streaming =
        (\<lambda>request. ([SendStreamingMessageSuccessResponse (JStr ''one''),
                       JSONRPCErrorResponse (JStr ''two'')], None)),
      model_dump_json = sample_dump,
      isatty = False,
      highlight = (\<lambda>s. s)\<rparr>"

section \<open>Properties of the pattern\<close>

lemma first_of_simps [simp]: "first_of [] = None" "first_of (x # xs) = Some x"
  by (simp_all add: first_of_def)

lemma first_of_append: "first_of (xs @ ys) = (case first_of xs of None \<Rightarrow> first_of ys | Some x \<Rightarrow> Some x)"
  by (cases xs) simp_all

lemma first_of_map: "first_of (map f xs) = map_option f (first_of xs)"
  by (cases xs) simp_all

lemma rev_upt_from_1: "0 < L \<Longrightarrow> rev [Suc 0 ..< Suc L] = L # rev [Suc 0 ..< L]"
  by (cases L) simp_all

lemma first_value_candidates:
  "first_of (value_candidates rest) = (if rest = [] then None else Some rest)"
proof (cases "rest = []")
  case True
  then show ?thesis by (simp add: value_candidates_def)
next
  case False
  then have "0 < length rest" by simp
  then show ?thesis using False
    by (simp add: value_candidates_def rev_upt_from_1 at_end_def del: upt_Suc)
qed

lemma first_sep_candidates:
  "first_of (sep_candidates rest) =
     (case rest of
        [] \<Rightarrow> None
      | c # v \<Rightarrow>
          if c = CHR ''='' then (if v = [] then None else Some (''='', v))
          else if c = CHR '':'' then
            (case v of
               [] \<Rightarrow> None
             | d # w \<Rightarrow> if d = CHR ''='' \<and> w \<noteq> [] then Some ('':='', w) else Some ('':'', v))
          else None)"
  by (auto simp: sep_candidates_def first_of_append first_of_map first_value_candidates
           split: list.splits option.splits)

lemma sep_candidates_nonsep:
  "\<not> is_sep_char c \<Longrightarrow> sep_candidates (c # rest) = []"
  by (auto simp: sep_candidates_def is_sep_char_def)

lemma PATTERN_match_first_of: "PATTERN_match item = first_of (match_candidates item)"
  by (simp add: PATTERN_match_def first_of_def)

lemma sep_candidates_inside_key:
  assumes "n < length (takeWhile (\<lambda>c. \<not> is_sep_char c) item)"
  shows "sep_candidates (drop n item) = []"
proof -
  let ?k = "takeWhile (\<lambda>c. \<not> is_sep_char c) item"
  have len: "n < length item"
    using assms length_takeWhile_le [of "\<lambda>c. \<not> is_sep_char c" item] by simp
  have "?k ! n \<in> set ?k" using assms by simp
  then have "\<not> is_sep_char (?k ! n)" by (auto dest: set_takeWhileD)
  moreover have "?k ! n = item ! n" using assms by (rule takeWhile_nth)
  ultimately have "\<not> is_sep_char (item ! n)" by simp
  moreover have "drop n item = item ! n # drop (Suc n) item"
    using len by (simp add: Cons_nth_drop_Suc)
  ultimately show ?thesis by (simp add: sep_candidates_nonsep)
qed

lemma first_match_candidates:
  "first_of (match_candidates item) =
     (if takeWhile (\<lambda>c. \<not> is_sep_char c) item = [] then None
      else map_option (\<lambda>(sep, v). (takeWhile (\<lambda>c. \<not> is_sep_char c) item, sep, v))
             (first_of (sep_candidates (dropWhile (\<lambda>c. \<not> is_sep_char c) item))))"
proof (cases "takeWhile (\<lambda>c. \<not> is_sep_char c) item = []")
  case True
  then show ?thesis by (simp add: match_candidates_def key_candidates_def)
next
  case False
  let ?k = "takeWhile (\<lambda>c. \<not> is_sep_char c) item"
  let ?f = "\<lambda>n. map (\<lambda>(sep, v). (take n item, sep, v)) (sep_candidates (drop n item))"
  have pos: "0 < length ?k" using False by simp
  have shorter: "concat (map ?f (rev [Suc 0 ..< length ?k])) = []"
    by (simp add: sep_candidates_inside_key)
  have tk: "take (length ?k) item = ?k"
    by (metis append_eq_conv_conj takeWhile_dropWhile_id)
  have dk: "drop (length ?k) item = dropWhile (\<lambda>c. \<not> is_sep_char c) item"
    by (metis append_eq_conv_conj takeWhile_dropWhile_id)
  have "match_candidates item = ?f (length ?k) @ concat (map ?f (rev [Suc 0 ..< length ?k]))"
    using pos by (simp add: match_candidates_def key_candidates_def rev_upt_from_1 del: upt_Suc)
  then have "match_candidates item = ?f (length ?k)" using shorter by simp
  then show ?thesis using False by (simp add: tk dk first_of_map)
qed

text \<open>What the first match is, read off the item from left to right.\<close>

lemma PATTERN_match_eq:
  "PATTERN_match item =
     (let key = takeWhile (\<lambda>c. \<not> is_sep_char c) item;
          rest = dropWhile (\<lambda>c. \<not> is_sep_char c) item
      in if key = [] then None
         else case rest of
                [] \<Rightarrow> None
              | c # v \<Rightarrow>
                  if c = CHR ''='' then (if v = [] then None else Some (key, ''='', v))
                  else (case v of
                          [] \<Rightarrow> None
                        | d # w \<Rightarrow> if d = CHR ''='' \<and> w \<noteq> [] then Some (key, '':='', w)
                                  else Some (key, '':'', v)))"
proof -
  define key where "key = takeWhile (\<lambda>c. \<not> is_sep_char c) item"
  define rest where "rest = dropWhile (\<lambda>c. \<not> is_sep_char c) item"
  have sep: "is_sep_char c" if "rest = c # v" for c v
    using that hd_dropWhile [of "\<lambda>c. \<not> is_sep_char c" item] by (simp add: rest_def)
  have "PATTERN_match item =
          (if key = [] then None
           else map_option (\<lambda>(sep, v). (key, sep, v)) (first_of (sep_candidates rest)))"
    by (simp add: PATTERN_match_first_of first_match_candidates key_def rest_def)
  also have "\<dots> =
          (if key = [] then None
           else case rest of
                [] \<Rightarrow> None
              | c # v \<Rightarrow>
                  if c = CHR ''='' then (if v = [] then None else Some (key, ''='', v))
                  else (case v of
                          [] \<Rightarrow> None
                        | d # w \<Rightarrow> if d = CHR ''='' \<and> w \<noteq> [] then Some (key, '':='', w)
                                  else Some (key, '':'', v)))"
  proof (cases rest)
    case Nil
    then show ?thesis by (simp add: first_sep_candidates)
  next
    case (Cons c v)
    then have "c = CHR ''='' \<or> c = CHR '':''" using sep by (auto simp: is_sep_char_def)
    then show ?thesis using Cons
      by (cases v) (auto simp: first_sep_candidates)
  qed
  finally show ?thesis unfolding key_def rest_def Let_def .
qed

lemma takeWhile_key:
  assumes "\<forall>c\<in>set k. \<not> is_sep_char c" "is_sep_char s"
  shows "takeWhile (\<lambda>c. \<not> is_sep_char c) (k @ s # r) = k"
    and "dropWhile (\<lambda>c. \<not> is_sep_char c) (k @ s # r) = s # r"
  using assms by (simp_all add: takeWhile_append2 dropWhile_append2)

lemma PATTERN_match_string_item:
  assumes "k \<noteq> []" "\<forall>c\<in>set k. \<not> is_sep_char c" "v \<noteq> []"
  shows "PATTERN_match (k @ ''='' @ v) = Some (k, ''='', v)"
  using assms by (simp add: PATTERN_match_eq takeWhile_key is_sep_char_def)

lemma PATTERN_match_json_item:
  assumes "k \<noteq> []" "\<forall>c\<in>set k. \<not> is_sep_char c" "v \<noteq> []"
  shows "PATTERN_match (k @ '':='' @ v) = Some (k, '':='', v)"
  using assms by (simp add: PATTERN_match_eq takeWhile_key is_sep_char_def)

lemma PATTERN_match_header_item:
  assumes "k \<noteq> []" "\<forall>c\<in>set k. \<not> is_sep_char c" "v \<noteq> []" "hd v \<noteq> CHR ''=''"
  shows "PATTERN_match (k @ '':'' @ v) = Some (k, '':'', v)"
  using assms by (cases v) (simp_all add: PATTERN_match_eq takeWhile_key is_sep_char_def)

lemma PATTERN_match_colon_equals_only:
  assumes "k \<noteq> []" "\<forall>c\<in>set k. \<not> is_sep_char c"
  shows "PATTERN_match (k @ '':='') = Some (k, '':'', ''='')"
  using assms by (simp add: PATTERN_match_eq takeWhile_key is_sep_char_def)

lemma PATTERN_match_SomeD:
  assumes "PATTERN_match item = Some (key, sep, v)"
  shows "item = key @ sep @ v" "key \<noteq> []" "\<forall>c\<in>set key. \<not> is_sep_char c"
    "sep = ''='' \<or> sep = '':='' \<or> sep = '':''" "v \<noteq> []"
proof -
  define k where "k = takeWhile (\<lambda>c. \<not> is_sep_char c) item"
  define rest where "rest = dropWhile (\<lambda>c. \<not> is_sep_char c) item"
  have id: "item = k @ rest" by (simp add: k_def rest_def)
  have ns: "\<forall>c\<in>set k. \<not> is_sep_char c"
    by (auto simp: k_def dest: set_takeWhileD)
  have m: "(if k = [] then None
           else case rest of
                [] \<Rightarrow> None
              | c # w \<Rightarrow>
                  if c = CHR ''='' then (if w = [] then None else Some (k, ''='', w))
                  else (case w of
                          [] \<Rightarrow> None
                        | d # u \<Rightarrow> if d = CHR ''='' \<and> u \<noteq> [] then Some (k, '':='', u)
                                  else Some (k, '':'', w))) = Some (key, sep, v)"
    using assms unfolding PATTERN_match_eq Let_def k_def rest_def .
  have sepc: "is_sep_char c" if "rest = c # w" for c w
    using that hd_dropWhile [of "\<lambda>c. \<not> is_sep_char c" item] by (simp add: rest_def)
  have all: "item = key @ sep @ v \<and> key \<noteq> [] \<and> (\<forall>c\<in>set key. \<not> is_sep_char c)
     \<and> (sep = ''='' \<or> sep = '':='' \<or> sep = '':'') \<and> v \<noteq> []"
  proof (cases rest)
    case Nil
    then show ?thesis using m by (simp split: if_splits)
  next
    case (Cons c w)
    then have c: "c = CHR ''='' \<or> c = CHR '':''" using sepc by (auto simp: is_sep_char_def)
    show ?thesis
    proof (cases w)
      case Nil
      then show ?thesis using m Cons by (simp split: if_splits)
    next
      case (Cons d u)
      then show ?thesis using m \<open>rest = c # w\<close> c id ns
        by (auto split: if_splits)
    qed
  qed
  show "item = key @ sep @ v" "key \<noteq> []" "\<forall>c\<in>set key. \<not> is_sep_char c"
    "sep = ''='' \<or> sep = '':='' \<or> sep = '':''" "v \<noteq> []"
    using all by blast+
qed


subsection \<open>One item\<close>

lemma parse_cases:
  "parse loads item (ps, hs) =
     (case PATTERN_match item of
        None \<Rightarrow> Inl (InvalidItem item)
      | Some (key, sep, v) \<Rightarrow>
          if sep = ''='' then Inr (AList.update key (JStr v) ps, hs)
          else if sep = '':='' then
            (case loads v of
               Decoded j \<Rightarrow> Inr (AList.update key j ps, hs)
             | JSONDecodeError \<Rightarrow> Inl (InvalidJSONValue v)
             | Raised exc \<Rightarrow> Inl exc)
          else Inr (ps, AList.update key v hs))"
  by (auto split: option.splits decoded.splits dest: PATTERN_match_SomeD(4))

lemma parse_error_any_state:
  "parse loads item st = Inl e \<Longrightarrow> parse loads item st' = Inl e"
  by (cases st; cases st') (auto simp: parse_cases split: option.splits decoded.splits if_splits)

lemma parse_ok_any_state:
  "parse loads item st = Inr st1 \<Longrightarrow> \<exists>st2. parse loads item st' = Inr st2"
  by (cases st; cases st') (auto simp: parse_cases split: option.splits decoded.splits if_splits)

subsection \<open>The loop\<close>

lemma parse_loop_append:
  "parse_loop loads (xs @ ys) st =
     (case parse_loop loads xs st of Inl e \<Rightarrow> Inl e | Inr st' \<Rightarrow> parse_loop loads ys st')"
  by (induction xs arbitrary: st) (simp_all split: sum.splits)

lemma parse_loop_first_error:
  assumes "\<forall>x\<in>set pre. \<exists>st'. parse loads x ([], []) = Inr st'"
    and "parse loads bad ([], []) = Inl e"
  shows "parse_loop loads (pre @ bad # post) st = Inl e"
  using assms(1)
proof (induction pre arbitrary: st)
  case Nil
  show ?case using parse_error_any_state [OF assms(2)] by simp
next
  case (Cons x pre)
  then obtain st1 where "parse loads x ([], []) = Inr st1" by auto
  then obtain st2 where "parse loads x st = Inr st2"
    using parse_ok_any_state by blast
  then show ?case using Cons by simp
qed

lemma parse_loop_params_unchanged:
  assumes "parse_loop loads items (ps, hs) = Inr (ps', hs')"
    and "\<forall>u\<in>set items. \<forall>s w. PATTERN_match u = Some (k, s, w) \<longrightarrow> s = '':''"
  shows "map_of ps' k = map_of ps k"
  using assms
proof (induction items arbitrary: ps hs)
  case Nil
  then show ?case by simp
next
  case (Cons u items)
  from Cons.prems(1) obtain ps1 hs1 where
    step: "parse loads u (ps, hs) = Inr (ps1, hs1)" and
    rest: "parse_loop loads items (ps1, hs1) = Inr (ps', hs')"
    by (auto split: sum.splits)
  have "map_of ps1 k = map_of ps k"
    using step Cons.prems(2)
    by (auto simp: parse_cases update_conv' split: option.splits decoded.splits if_splits)
  moreover have "map_of ps' k = map_of ps1 k"
    using Cons.IH [OF rest] Cons.prems(2) by simp
  ultimately show ?case by simp
qed

lemma parse_loop_headers_unchanged:
  assumes "parse_loop loads items (ps, hs) = Inr (ps', hs')"
    and "\<forall>u\<in>set items. \<forall>w. PATTERN_match u \<noteq> Some (k, '':'', w)"
  shows "map_of hs' k = map_of hs k"
  using assms
proof (induction items arbitrary: ps hs)
  case Nil
  then show ?case by simp
next
  case (Cons u items)
  from Cons.prems(1) obtain ps1 hs1 where
    step: "parse loads u (ps, hs) = Inr (ps1, hs1)" and
    rest: "parse_loop loads items (ps1, hs1) = Inr (ps', hs')"
    by (auto split: sum.splits)
  have "map_of hs1 k = map_of hs k"
    using step Cons.prems(2)
    by (auto simp: parse_cases update_conv' split: option.splits decoded.splits if_splits)
  moreover have "map_of hs' k = map_of hs1 k"
    using Cons.IH [OF rest] Cons.prems(2) by simp
  ultimately show ?case by simp
qed

lemma parse_loop_distinct:
  assumes "parse_loop loads items (ps, hs) = Inr (ps', hs')"
    and "distinct (map fst ps)" "distinct (map fst hs)"
  shows "distinct (map fst ps') \<and> distinct (map fst hs')"
  using assms
proof (induction items arbitrary: ps hs)
  case Nil
  then show ?case by simp
next
  case (Cons u items)
  from Cons.prems(1) obtain ps1 hs1 where
    step: "parse loads u (ps, hs) = Inr (ps1, hs1)" and
    rest: "parse_loop loads items (ps1, hs1) = Inr (ps', hs')"
    by (auto split: sum.splits)
  have "distinct (map fst ps1) \<and> distinct (map fst hs1)"
    using step Cons.prems(2,3)
    by (auto simp: parse_cases distinct_update split: option.splits decoded.splits if_splits)
  then show ?case using Cons.IH [OF rest] by simp
qed

lemma distinct_filter_key:
  "distinct (map fst al) \<Longrightarrow> map_of al k = Some v \<Longrightarrow> filter (\<lambda>p. fst p = k) al = [(k, v)]"
proof (induction al)
  case Nil
  then show ?case by simp
next
  case (Cons p al)
  show ?case
  proof (cases "fst p = k")
    case True
    then have "k \<notin> fst ` set al" using Cons.prems(1) by auto
    then have "filter (\<lambda>p. fst p = k) al = []" by (auto simp: filter_empty_conv)
    then show ?thesis using True Cons.prems(2) by (cases p) simp
  next
    case False
    then show ?thesis using Cons by (cases p) auto
  qed
qed


lemma parse_items_split:
  assumes "parse_items loads (pre @ t # post) = Inr (ps, hs)"
  obtains ps0 hs0 ps1 hs1 where
    "parse_loop loads pre ([], []) = Inr (ps0, hs0)"
    "parse loads t (ps0, hs0) = Inr (ps1, hs1)"
    "parse_loop loads post (ps1, hs1) = Inr (ps, hs)"
proof -
  from assms obtain st0 where a: "parse_loop loads pre ([], []) = Inr st0"
    and b: "parse_loop loads (t # post) st0 = Inr (ps, hs)"
    by (auto simp: parse_items_def parse_loop_append split: sum.splits)
  from b obtain st1 where c: "parse loads t st0 = Inr st1"
    and d: "parse_loop loads post st1 = Inr (ps, hs)"
    by (auto split: sum.splits)
  show thesis using that [of "fst st0" "snd st0" "fst st1" "snd st1"] a c d by simp
qed

lemma parse_items_distinct:
  assumes "parse_items loads items = Inr (ps, hs)"
  shows "distinct (map fst ps)" "distinct (map fst hs)"
  using parse_loop_distinct [of loads items "[]" "[]" ps hs] assms
  by (simp_all add: parse_items_def)

subsection \<open>Items written as key, separator and value\<close>

lemma PATTERN_match_equals_split:
  assumes "\<forall>c\<in>set k. \<not> is_sep_char c"
  shows "PATTERN_match (k @ ''='' @ v) = (if k = [] \<or> v = [] then None else Some (k, ''='', v))"
  using assms by (simp add: PATTERN_match_eq takeWhile_key is_sep_char_def)

lemma PATTERN_match_colon_equals_split:
  assumes "\<forall>c\<in>set k. \<not> is_sep_char c"
  shows "PATTERN_match (k @ '':='' @ v) =
           (if k = [] then None else if v = [] then Some (k, '':'', ''='') else Some (k, '':='', v))"
  using assms by (simp add: PATTERN_match_eq takeWhile_key is_sep_char_def)

lemma PATTERN_match_colon_split:
  assumes "\<forall>c\<in>set k. \<not> is_sep_char c" "hd v \<noteq> CHR ''=''"
  shows "PATTERN_match (k @ '':'' @ v) = (if k = [] \<or> v = [] then None else Some (k, '':'', v))"
  using assms by (cases v) (simp_all add: PATTERN_match_eq takeWhile_key is_sep_char_def)

lemma parse_Inr_matches:
  "parse loads t st = Inr st' \<Longrightarrow> PATTERN_match t \<noteq> None"
  by (cases st) (auto simp del: parse.simps simp add: parse_cases split: option.splits decoded.splits)

lemma parse_loop_from_empty_headers:
  assumes "parse_loop loads items ([], []) = Inr (ps, hs)"
    and "\<forall>u\<in>set items. \<forall>w. PATTERN_match u \<noteq> Some (k, '':'', w)"
  shows "map_of hs k = None"
  using parse_loop_headers_unchanged [OF assms] by simp

lemma parse_loop_from_empty_params:
  assumes "parse_loop loads items ([], []) = Inr (ps, hs)"
    and "\<forall>u\<in>set items. \<forall>s w. PATTERN_match u = Some (k, s, w) \<longrightarrow> s = '':''"
  shows "map_of ps k = None"
  using parse_loop_params_unchanged [OF assms] by simp

text \<open>What an accepted list holds for one of its items, given how that item matched.\<close>

lemma routed_param:
  assumes accepted: "parse_items loads (pre @ t # post) = Inr (ps, hs)"
    and m: "PATTERN_match t = Some (k, sep, v)"
    and sep: "sep = ''='' \<and> j = JStr v \<or> sep = '':='' \<and> loads v = Decoded j"
  shows "(\<forall>u\<in>set post. \<forall>s w. PATTERN_match u = Some (k, s, w) \<longrightarrow> s = '':'') \<longrightarrow>
           map_of ps k = Some j"
    and "(\<forall>u\<in>set (pre @ post). \<forall>w. PATTERN_match u \<noteq> Some (k, '':'', w)) \<longrightarrow>
           map_of hs k = None"
proof -
  from accepted obtain ps0 hs0 ps1 hs1 where
    before: "parse_loop loads pre ([], []) = Inr (ps0, hs0)" and
    step: "parse loads t (ps0, hs0) = Inr (ps1, hs1)" and
    after: "parse_loop loads post (ps1, hs1) = Inr (ps, hs)"
    by (rule parse_items_split)
  have s1: "ps1 = AList.update k j ps0 \<and> hs1 = hs0"
    using step m sep by (auto simp del: parse.simps simp add: parse_cases)
  show "(\<forall>u\<in>set post. \<forall>s w. PATTERN_match u = Some (k, s, w) \<longrightarrow> s = '':'') \<longrightarrow>
           map_of ps k = Some j"
  proof
    assume later: "\<forall>u\<in>set post. \<forall>s w. PATTERN_match u = Some (k, s, w) \<longrightarrow> s = '':''"
    have "map_of ps1 k = Some j" using s1 by (simp add: update_conv')
    then show "map_of ps k = Some j"
      using parse_loop_params_unchanged [OF after later] by simp
  qed
  show "(\<forall>u\<in>set (pre @ post). \<forall>w. PATTERN_match u \<noteq> Some (k, '':'', w)) \<longrightarrow>
           map_of hs k = None"
  proof
    assume none: "\<forall>u\<in>set (pre @ post). \<forall>w. PATTERN_match u \<noteq> Some (k, '':'', w)"
    have "\<forall>u\<in>set pre. \<forall>w. PATTERN_match u \<noteq> Some (k, '':'', w)"
      using none by auto
    then have "map_of hs0 k = None"
      by (rule parse_loop_from_empty_headers [OF before])
    then have "map_of hs1 k = None" using s1 by simp
    moreover have "\<forall>u\<in>set post. \<forall>w. PATTERN_match u \<noteq> Some (k, '':'', w)"
      using none by auto
    then have "map_of hs k = map_of hs1 k"
      by (rule parse_loop_headers_unchanged [OF after])
    ultimately show "map_of hs k = None" by simp
  qed
qed

lemma routed_header:
  assumes accepted: "parse_items loads (pre @ t # post) = Inr (ps, hs)"
    and m: "PATTERN_match t = Some (k, '':'', v)"
  shows "(\<forall>u\<in>set post. \<forall>w. PATTERN_match u \<noteq> Some (k, '':'', w)) \<longrightarrow>
           map_of hs k = Some v"
    and "(\<forall>u\<in>set (pre @ post). \<forall>s w. PATTERN_match u = Some (k, s, w) \<longrightarrow> s = '':'') \<longrightarrow>
           map_of ps k = None"
proof -
  from accepted obtain ps0 hs0 ps1 hs1 where
    before: "parse_loop loads pre ([], []) = Inr (ps0, hs0)" and
    step: "parse loads t (ps0, hs0) = Inr (ps1, hs1)" and
    after: "parse_loop loads post (ps1, hs1) = Inr (ps, hs)"
    by (rule parse_items_split)
  have s1: "ps1 = ps0 \<and> hs1 = AList.update k v hs0"
    using step m by (auto simp del: parse.simps simp add: parse_cases)
  show "(\<forall>u\<in>set post. \<forall>w. PATTERN_match u \<noteq> Some (k, '':'', w)) \<longrightarrow>
           map_of hs k = Some v"
  proof
    assume later: "\<forall>u\<in>set post. \<forall>w. PATTERN_match u \<noteq> Some (k, '':'', w)"
    have "map_of hs1 k = Some v" using s1 by (simp add: update_conv')
    then show "map_of hs k = Some v"
      using parse_loop_headers_unchanged [OF after later] by simp
  qed
  show "(\<forall>u\<in>set (pre @ post). \<forall>s w. PATTERN_match u = Some (k, s, w) \<longrightarrow> s = '':'') \<longrightarrow>
           map_of ps k = None"
  proof
    assume none: "\<forall>u\<in>set (pre @ post). \<forall>s w. PATTERN_match u = Some (k, s, w) \<longrightarrow> s = '':''"
    have "\<forall>u\<in>set pre. \<forall>s w. PATTERN_match u = Some (k, s, w) \<longrightarrow> s = '':''"
      using none by auto
    then have "map_of ps0 k = None"
      by (rule parse_loop_from_empty_params [OF before])
    then have "map_of ps1 k = None" using s1 by simp
    moreover have "\<forall>u\<in>set post. \<forall>s w. PATTERN_match u = Some (k, s, w) \<longrightarrow> s = '':''"
      using none by auto
    then have "map_of ps k = map_of ps1 k"
      by (rule parse_loop_params_unchanged [OF after])
    ultimately show "map_of ps k = None" by simp
  qed
qed

lemma accepted_item_matches:
  assumes "parse_items loads (pre @ t # post) = Inr (ps, hs)"
  shows "PATTERN_match t \<noteq> None"
proof -
  from assms obtain ps0 hs0 ps1 hs1 where "parse loads t (ps0, hs0) = Inr (ps1, hs1)"
    by (rule parse_items_split)
  then show ?thesis by (rule parse_Inr_matches)
qed

subsection \<open>An item that ends with its separator\<close>

lemma parse_unmatched:
  "PATTERN_match item = None \<Longrightarrow> parse loads item st = Inl (InvalidItem item)"
  by (cases st) simp

lemma parse_equals_without_value:
  assumes "\<forall>c\<in>set k. \<not> is_sep_char c"
  shows "parse loads (k @ ''='') st = Inl (InvalidItem (k @ ''=''))"
  using PATTERN_match_equals_split [OF assms, of "[]"] by (simp add: parse_unmatched)

lemma parse_colon_without_value:
  assumes "\<forall>c\<in>set k. \<not> is_sep_char c"
  shows "parse loads (k @ '':'') st = Inl (InvalidItem (k @ '':''))"
proof -
  have "PATTERN_match (k @ '':'') = None"
    using assms by (simp add: PATTERN_match_eq takeWhile_key is_sep_char_def)
  then show ?thesis by (rule parse_unmatched)
qed

lemma parse_colon_equals_without_value:
  assumes "\<forall>c\<in>set k. \<not> is_sep_char c" "k \<noteq> []"
  shows "parse loads (k @ '':='') (ps, hs) = Inr (ps, AList.update k ''='' hs)"
  using PATTERN_match_colon_equals_split [OF assms(1), of "[]"] assms(2) by simp

lemma parse_invalid_json:
  assumes "\<forall>c\<in>set k. \<not> is_sep_char c" "k \<noteq> []" "v \<noteq> []" "loads v = JSONDecodeError"
  shows "parse loads (k @ '':='' @ v) st = Inl (InvalidJSONValue v)"
  using PATTERN_match_colon_equals_split [OF assms(1), of v] assms(2-4) by (cases st) simp

lemma parse_valid_json:
  assumes "\<forall>c\<in>set k. \<not> is_sep_char c" "k \<noteq> []" "v \<noteq> []" "loads v = Decoded j"
  shows "parse loads (k @ '':='' @ v) (ps, hs) = Inr (AList.update k j ps, hs)"
  using PATTERN_match_colon_equals_split [OF assms(1), of v] assms(2-4) by simp

subsection \<open>What \<^verbatim>\<open>parse\<close> does with an item, by its kind\<close>

text \<open>
  A list in which \<^verbatim>\<open>parse\<close> raises on some item ends with the exception of the first
  such item, and every item before that one parses.
\<close>

lemma first_rejected_item_aborts:
  assumes "bad \<in> set items" and "parse loads bad ([], []) = Inl e0"
  shows "\<exists>pre b post e. items = pre @ b # post
           \<and> (\<forall>x\<in>set pre. \<exists>st. parse loads x ([], []) = Inr st)
           \<and> parse loads b ([], []) = Inl e
           \<and> parse_items loads items = Inl e"
proof -
  let ?fails = "\<lambda>x. \<exists>e. parse loads x ([], []) = Inl e"
  have "\<exists>x\<in>set items. ?fails x" using assms by blast
  then obtain pre b post where split: "items = pre @ b # post" and b: "?fails b"
    and pre: "\<forall>y\<in>set pre. \<not> ?fails y"
    using split_list_first_prop [of items ?fails] by blast
  from b obtain e where e: "parse loads b ([], []) = Inl e" by blast
  have ok: "\<forall>x\<in>set pre. \<exists>st. parse loads x ([], []) = Inr st"
  proof
    fix x assume "x \<in> set pre"
    then have "\<not> ?fails x" using pre by blast
    then show "\<exists>st. parse loads x ([], []) = Inr st"
      by (cases "parse loads x ([], [])") auto
  qed
  have "parse_items loads items = Inl e"
    unfolding parse_items_def split using ok e by (rule parse_loop_first_error)
  then show ?thesis using split ok e by blast
qed

text \<open>An item \<open>a:=b\<close> with a key and a value is a raw JSON item, never a header.\<close>

lemma colon_equals_with_value:
  assumes "a \<noteq> []" and "\<forall>c\<in>set a. \<not> is_sep_char c" and "b \<noteq> []"
  shows "PATTERN_match (a @ '':='' @ b) = Some (a, '':='', b)
       \<and> PATTERN_match (a @ '':='' @ b) \<noteq> Some (a, '':'', ''='' @ b)
       \<and> parse loads (a @ '':='' @ b) (ps, hs) =
            (case loads b of
               Decoded j \<Rightarrow> Inr (AList.update a j ps, hs)
             | JSONDecodeError \<Rightarrow> Inl (InvalidJSONValue b)
             | Raised exc \<Rightarrow> Inl exc)"
proof -
  have m: "PATTERN_match (a @ '':='' @ b) = Some (a, '':='', b)"
    using assms by (rule PATTERN_match_json_item)
  then show ?thesis by (simp split: option.splits decoded.splits)
qed

text \<open>
  How \<^verbatim>\<open>parse\<close> fails: with "Invalid item" on an item the pattern does not match;
  with "Invalid JSON value" on an item \<open>k:=v\<close> whose value the decoder rejects with
  \<^verbatim>\<open>json.JSONDecodeError\<close>; and otherwise only with an exception that the decoder
  raised and \<^verbatim>\<open>parse\<close> does not catch.
\<close>

lemma failures_of_parse:
  "(PATTERN_match item = None \<longrightarrow> parse loads item st = Inl (InvalidItem item))
   \<and> (k \<noteq> [] \<and> (\<forall>c\<in>set k. \<not> is_sep_char c) \<and> v \<noteq> [] \<and> loads v = JSONDecodeError \<longrightarrow>
        parse loads (k @ '':='' @ v) st = Inl (InvalidJSONValue v))
   \<and> (parse loads item st = Inl e \<longrightarrow>
        (e = InvalidItem item \<and> PATTERN_match item = None)
        \<or> (\<exists>key val. PATTERN_match item = Some (key, '':='', val)
              \<and> (e = InvalidJSONValue val \<and> loads val = JSONDecodeError \<or> loads val = Raised e)))"
proof (intro conjI impI)
  assume "PATTERN_match item = None"
  then show "parse loads item st = Inl (InvalidItem item)" by (rule parse_unmatched)
next
  assume "k \<noteq> [] \<and> (\<forall>c\<in>set k. \<not> is_sep_char c) \<and> v \<noteq> [] \<and> loads v = JSONDecodeError"
  then have "\<forall>c\<in>set k. \<not> is_sep_char c" "k \<noteq> []" "v \<noteq> []" "loads v = JSONDecodeError"
    by blast+
  then show "parse loads (k @ '':='' @ v) st = Inl (InvalidJSONValue v)"
    by (rule parse_invalid_json)
next
  assume "parse loads item st = Inl e"
  then show "(e = InvalidItem item \<and> PATTERN_match item = None)
        \<or> (\<exists>key val. PATTERN_match item = Some (key, '':='', val)
              \<and> (e = InvalidJSONValue val \<and> loads val = JSONDecodeError \<or> loads val = Raised e))"
    by (cases st)
      (auto simp del: parse.simps simp add: parse_cases split: option.splits decoded.splits if_splits)
qed

section \<open>The claims about \<^verbatim>\<open>parse_items\<close>\<close>

text \<open>
  \<^bold>\<open>C9\<close>. Keys are unique and the last occurrence wins. In the result of an accepted
  list, take an item with key \<open>k\<close> after which no item writes \<open>k\<close> into the same
  dictionary (the items with \<^verbatim>\<open>=\<close> and \<^verbatim>\<open>:=\<close> write \<^verbatim>\<open>params\<close>, those with
  \<^verbatim>\<open>:\<close> write \<^verbatim>\<open>headers\<close>). Then that dictionary has exactly one entry for
  \<open>k\<close>, and it holds the value of this item, however many earlier items wrote \<open>k\<close>.
\<close>

theorem last_occurrence_wins:
  assumes accepted: "parse_items loads (pre @ t # post) = Inr (ps, hs)"
    and token: "PATTERN_match t = Some (k, sep, v)"
  shows "(sep = ''='' \<longrightarrow>
            (\<forall>u\<in>set post. \<forall>s w. PATTERN_match u = Some (k, s, w) \<longrightarrow> s = '':'') \<longrightarrow>
            filter (\<lambda>p. fst p = k) ps = [(k, JStr v)])
       \<and> (sep = '':='' \<longrightarrow>
            (\<forall>u\<in>set post. \<forall>s w. PATTERN_match u = Some (k, s, w) \<longrightarrow> s = '':'') \<longrightarrow>
            (\<exists>j. loads v = Decoded j \<and> filter (\<lambda>p. fst p = k) ps = [(k, j)]))
       \<and> (sep = '':'' \<longrightarrow>
            (\<forall>u\<in>set post. \<forall>w. PATTERN_match u \<noteq> Some (k, '':'', w)) \<longrightarrow>
            filter (\<lambda>p. fst p = k) hs = [(k, v)])"
proof -
  from accepted obtain ps0 hs0 ps1 hs1 where
    before: "parse_loop loads pre ([], []) = Inr (ps0, hs0)" and
    step: "parse loads t (ps0, hs0) = Inr (ps1, hs1)" and
    after: "parse_loop loads post (ps1, hs1) = Inr (ps, hs)"
    by (rule parse_items_split)
  note d = parse_items_distinct [OF accepted]
  have string_item: "filter (\<lambda>p. fst p = k) ps = [(k, JStr v)]"
    if "sep = ''=''" "\<forall>u\<in>set post. \<forall>s w. PATTERN_match u = Some (k, s, w) \<longrightarrow> s = '':''"
  proof -
    have "map_of ps1 k = Some (JStr v)"
      using step token that(1) by (auto simp: parse_cases update_conv' simp del: parse.simps)
    then have "map_of ps k = Some (JStr v)"
      using parse_loop_params_unchanged [OF after that(2)] by simp
    then show ?thesis using d(1) by (rule distinct_filter_key [rotated])
  qed
  have json_item: "\<exists>j. loads v = Decoded j \<and> filter (\<lambda>p. fst p = k) ps = [(k, j)]"
    if "sep = '':=''" "\<forall>u\<in>set post. \<forall>s w. PATTERN_match u = Some (k, s, w) \<longrightarrow> s = '':''"
  proof -
    have "parse loads t (ps0, hs0) =
            (case loads v of
               Decoded j \<Rightarrow> Inr (AList.update k j ps0, hs0)
             | JSONDecodeError \<Rightarrow> Inl (InvalidJSONValue v)
             | Raised exc \<Rightarrow> Inl exc)"
      using token that(1) by (simp add: parse_cases del: parse.simps)
    then obtain j where j: "loads v = Decoded j" and "ps1 = AList.update k j ps0"
      using step by (cases "loads v") auto
    then have "map_of ps1 k = Some j" by (simp add: update_conv')
    then have "map_of ps k = Some j"
      using parse_loop_params_unchanged [OF after that(2)] by simp
    then have "filter (\<lambda>p. fst p = k) ps = [(k, j)]"
      using d(1) by (rule distinct_filter_key [rotated])
    then show ?thesis using j by blast
  qed
  have header_item: "filter (\<lambda>p. fst p = k) hs = [(k, v)]"
    if "sep = '':''" "\<forall>u\<in>set post. \<forall>w. PATTERN_match u \<noteq> Some (k, '':'', w)"
  proof -
    have "map_of hs1 k = Some v"
      using step token that(1) by (auto simp: parse_cases update_conv' simp del: parse.simps)
    then have "map_of hs k = Some v"
      using parse_loop_headers_unchanged [OF after that(2)] by simp
    then show ?thesis using d(2) by (rule distinct_filter_key [rotated])
  qed
  show ?thesis using string_item json_item header_item by blast
qed

theorem last_occurrence_wins_witness:
  "parse_items sample_loads ([''k=a'', ''h:x'', ''k:=30'', ''h:y''] @ ''k=b'' # []) =
     Inr ([(''k'', JStr ''b'')], [(''h'', ''y'')])
   \<and> filter (\<lambda>p. fst p = ''k'') [(''k'', JStr ''b'')] = [(''k'', JStr ''b'')]
   \<and> parse_items sample_loads ([''k=a'', ''h:x''] @ ''k:=30'' # [''h:y'']) =
     Inr ([(''k'', JInt 30)], [(''h'', ''y'')])
   \<and> (\<exists>j. sample_loads ''30'' = Decoded j \<and> filter (\<lambda>p. fst p = ''k'') [(''k'', JInt 30)] = [(''k'', j)])
   \<and> filter (\<lambda>p. fst p = ''h'') [(''h'', ''y'')] = [(''h'', ''y'')]"
proof -
  have run1: "parse_items sample_loads ([''k=a'', ''h:x'', ''k:=30'', ''h:y''] @ ''k=b'' # []) =
     Inr ([(''k'', JStr ''b'')], [(''h'', ''y'')])"
    by (simp add: parse_items_def PATTERN_match_eq is_sep_char_def sample_loads_def)
  have run2: "parse_items sample_loads ([''k=a'', ''h:x''] @ ''k:=30'' # [''h:y'']) =
     Inr ([(''k'', JInt 30)], [(''h'', ''y'')])"
    by (simp add: parse_items_def PATTERN_match_eq is_sep_char_def sample_loads_def)
  have run3: "parse_items sample_loads ([''k=a'', ''h:x'', ''k:=30''] @ ''h:y'' # []) =
     Inr ([(''k'', JInt 30)], [(''h'', ''y'')])"
    by (simp add: parse_items_def PATTERN_match_eq is_sep_char_def sample_loads_def)
  have m1: "PATTERN_match ''k=b'' = Some (''k'', ''='', ''b'')"
    by (simp add: PATTERN_match_eq is_sep_char_def)
  have m2: "PATTERN_match ''k:=30'' = Some (''k'', '':='', ''30'')"
    by (simp add: PATTERN_match_eq is_sep_char_def)
  have m3: "PATTERN_match ''h:y'' = Some (''h'', '':'', ''y'')"
    by (simp add: PATTERN_match_eq is_sep_char_def)
  have later: "\<forall>u\<in>set [''h:y'']. \<forall>s w. PATTERN_match u = Some (''k'', s, w) \<longrightarrow> s = '':''"
    by (simp add: PATTERN_match_eq is_sep_char_def)
  have none: "\<forall>u\<in>set ([]::string list). \<forall>s w. PATTERN_match u = Some (''k'', s, w) \<longrightarrow> s = '':''"
    by simp
  have none': "\<forall>u\<in>set ([]::string list). \<forall>w. PATTERN_match u \<noteq> Some (''h'', '':'', w)"
    by simp
  have c1: "filter (\<lambda>p. fst p = ''k'') [(''k'', JStr ''b'')] = [(''k'', JStr ''b'')]"
    using last_occurrence_wins [OF run1 m1] none by blast
  have c2: "\<exists>j. sample_loads ''30'' = Decoded j \<and> filter (\<lambda>p. fst p = ''k'') [(''k'', JInt 30)] = [(''k'', j)]"
    using last_occurrence_wins [OF run2 m2] later by blast
  have c3: "filter (\<lambda>p. fst p = ''h'') [(''h'', ''y'')] = [(''h'', ''y'')]"
    using last_occurrence_wins [OF run3 m3] none' by blast
  show ?thesis using run1 run2 c1 c2 c3 by blast
qed


text \<open>
  \<^bold>\<open>C1\<close>, as the code has it. Take an accepted list, one of its items \<open>t\<close>, and a
  key \<open>k\<close> without \<open>:\<close> and \<open>=\<close>.
  \<^item> If \<open>t\<close> is \<open>k=v\<close>, then \<^verbatim>\<open>params[k]\<close> is the string \<open>v\<close>, verbatim, provided no
    later item writes \<^verbatim>\<open>params[k]\<close>; and \<^verbatim>\<open>headers\<close> has no entry for \<open>k\<close> provided
    no other item of the list is a header item for \<open>k\<close>.
  \<^item> If \<open>t\<close> is \<open>k:=v\<close> with \<open>v\<close> valid JSON (the decoder rejects the empty text), the
    same holds with the decoded value of \<open>v\<close>.
  \<^item> If \<open>t\<close> is \<open>k:v\<close> and \<open>v\<close> does not begin with \<open>=\<close>, then \<^verbatim>\<open>headers[k]\<close> is
    \<open>v\<close> provided no later item is a header item for \<open>k\<close>; and \<^verbatim>\<open>params\<close> has no
    entry for \<open>k\<close> provided no other item of the list writes \<^verbatim>\<open>params[k]\<close>.
  \<^item> The items \<^verbatim>\<open>name=Alice\<close>, \<^verbatim>\<open>age:=30\<close>, \<^verbatim>\<open>x-api-key:secret\<close> give the
    parameters \<^verbatim>\<open>{"name": "Alice", "age": 30}\<close> and the headers
    \<^verbatim>\<open>{"x-api-key": "secret"}\<close>.
\<close>

theorem parse_items_routes_each_item:
  "(parse_items loads (pre @ t # post) = Inr (ps, hs) \<and> (\<forall>c\<in>set k. \<not> is_sep_char c) \<longrightarrow>
      (t = k @ ''='' @ v \<longrightarrow>
         ((\<forall>u\<in>set post. \<forall>s w. PATTERN_match u = Some (k, s, w) \<longrightarrow> s = '':'') \<longrightarrow>
            map_of ps k = Some (JStr v))
       \<and> ((\<forall>u\<in>set (pre @ post). \<forall>w. PATTERN_match u \<noteq> Some (k, '':'', w)) \<longrightarrow>
            map_of hs k = None))
    \<and> (t = k @ '':='' @ v \<and> loads [] = JSONDecodeError \<and> loads v = Decoded j \<longrightarrow>
         ((\<forall>u\<in>set post. \<forall>s w. PATTERN_match u = Some (k, s, w) \<longrightarrow> s = '':'') \<longrightarrow>
            map_of ps k = Some j)
       \<and> ((\<forall>u\<in>set (pre @ post). \<forall>w. PATTERN_match u \<noteq> Some (k, '':'', w)) \<longrightarrow>
            map_of hs k = None))
    \<and> (t = k @ '':'' @ v \<and> hd v \<noteq> CHR ''='' \<longrightarrow>
         ((\<forall>u\<in>set post. \<forall>w. PATTERN_match u \<noteq> Some (k, '':'', w)) \<longrightarrow>
            map_of hs k = Some v)
       \<and> ((\<forall>u\<in>set (pre @ post). \<forall>s w. PATTERN_match u = Some (k, s, w) \<longrightarrow> s = '':'') \<longrightarrow>
            map_of ps k = None)))
   \<and> (loads ''30'' = Decoded (JInt 30) \<longrightarrow>
        parse_items loads [''name=Alice'', ''age:=30'', ''x-api-key:secret''] =
          Inr ([(''name'', JStr ''Alice''), (''age'', JInt 30)], [(''x-api-key'', ''secret'')]))"
proof (intro conjI impI; (elim conjE)?)
  assume accepted: "parse_items loads (pre @ t # post) = Inr (ps, hs)"
    and key: "\<forall>c\<in>set k. \<not> is_sep_char c"
  note matches = accepted_item_matches [OF accepted]
  {
    assume t: "t = k @ ''='' @ v"
    have m: "PATTERN_match t = Some (k, ''='', v)"
      using matches PATTERN_match_equals_split [OF key, of v] t by (simp split: if_splits)
    note r = routed_param [OF accepted m, of "JStr v"]
    {
      assume "\<forall>u\<in>set post. \<forall>s w. PATTERN_match u = Some (k, s, w) \<longrightarrow> s = '':''"
      then show "map_of ps k = Some (JStr v)" using r(1) by simp
    }
    {
      assume "\<forall>u\<in>set (pre @ post). \<forall>w. PATTERN_match u \<noteq> Some (k, '':'', w)"
      then show "map_of hs k = None" using r(2) by simp
    }
  }
  {
    assume t: "t = k @ '':='' @ v" and empty: "loads [] = JSONDecodeError" and j: "loads v = Decoded j"
    have "v \<noteq> []" using empty j by auto
    then have m: "PATTERN_match t = Some (k, '':='', v)"
      using matches PATTERN_match_colon_equals_split [OF key, of v] t by (simp split: if_splits)
    note r = routed_param [OF accepted m, of j]
    {
      assume "\<forall>u\<in>set post. \<forall>s w. PATTERN_match u = Some (k, s, w) \<longrightarrow> s = '':''"
      then show "map_of ps k = Some j" using r(1) j by simp
    }
    {
      assume "\<forall>u\<in>set (pre @ post). \<forall>w. PATTERN_match u \<noteq> Some (k, '':'', w)"
      then show "map_of hs k = None" using r(2) j by simp
    }
  }
  {
    assume t: "t = k @ '':'' @ v" and v: "hd v \<noteq> CHR ''=''"
    have m: "PATTERN_match t = Some (k, '':'', v)"
      using matches PATTERN_match_colon_split [OF key v] t by (simp split: if_splits)
    note r = routed_header [OF accepted m]
    {
      assume "\<forall>u\<in>set post. \<forall>w. PATTERN_match u \<noteq> Some (k, '':'', w)"
      then show "map_of hs k = Some v" using r(1) by simp
    }
    {
      assume "\<forall>u\<in>set (pre @ post). \<forall>s w. PATTERN_match u = Some (k, s, w) \<longrightarrow> s = '':''"
      then show "map_of ps k = None" using r(2) by simp
    }
  }
next
  assume "loads ''30'' = Decoded (JInt 30)"
  then show "parse_items loads [''name=Alice'', ''age:=30'', ''x-api-key:secret''] =
          Inr ([(''name'', JStr ''Alice''), (''age'', JInt 30)], [(''x-api-key'', ''secret'')])"
    by (simp add: parse_items_def PATTERN_match_eq is_sep_char_def)
qed

theorem parse_items_routes_each_item_witness:
  "parse_items sample_loads ([''name=Alice''] @ ''age:=30'' # [''x-api-key:secret'']) =
     Inr ([(''name'', JStr ''Alice''), (''age'', JInt 30)], [(''x-api-key'', ''secret'')])
   \<and> map_of [(''name'', JStr ''Alice''), (''age'', JInt 30)] ''age'' = Some (JInt 30)
   \<and> map_of [(''x-api-key'', ''secret'')] ''age'' = None
   \<and> map_of [(''name'', JStr ''Alice''), (''age'', JInt 30)] ''name'' = Some (JStr ''Alice'')
   \<and> map_of [(''x-api-key'', ''secret'')] ''name'' = None
   \<and> map_of [(''x-api-key'', ''secret'')] ''x-api-key'' = Some ''secret''
   \<and> map_of [(''name'', JStr ''Alice''), (''age'', JInt 30)] ''x-api-key'' = None"
proof -
  let ?P = "[(''name'', JStr ''Alice''), (''age'', JInt 30)]"
  let ?H = "[(''x-api-key'', ''secret'')]"
  have thirty: "sample_loads ''30'' = Decoded (JInt 30)" and empty: "sample_loads [] = JSONDecodeError"
    by (simp_all add: sample_loads_def)
  have run: "parse_items sample_loads [''name=Alice'', ''age:=30'', ''x-api-key:secret''] = Inr (?P, ?H)"
    using parse_items_routes_each_item [where loads = sample_loads] thirty by blast
  have run1: "parse_items sample_loads ([] @ ''name=Alice'' # [''age:=30'', ''x-api-key:secret'']) = Inr (?P, ?H)"
    and run2: "parse_items sample_loads ([''name=Alice''] @ ''age:=30'' # [''x-api-key:secret'']) = Inr (?P, ?H)"
    and run3: "parse_items sample_loads ([''name=Alice'', ''age:=30''] @ ''x-api-key:secret'' # []) = Inr (?P, ?H)"
    using run by simp_all
  have k1: "\<forall>c\<in>set ''name''. \<not> is_sep_char c" and k2: "\<forall>c\<in>set ''age''. \<not> is_sep_char c"
    and k3: "\<forall>c\<in>set ''x-api-key''. \<not> is_sep_char c"
    by (simp_all add: is_sep_char_def)
  have t1: "''name=Alice'' = ''name'' @ ''='' @ ''Alice''"
    and t2: "''age:=30'' = ''age'' @ '':='' @ ''30''"
    and t3: "''x-api-key:secret'' = ''x-api-key'' @ '':'' @ ''secret''"
    and v3: "hd ''secret'' \<noteq> CHR ''=''"
    by simp_all
  have p1: "\<forall>u\<in>set [''age:=30'', ''x-api-key:secret'']. \<forall>s w. PATTERN_match u = Some (''name'', s, w) \<longrightarrow> s = '':''"
    and h1: "\<forall>u\<in>set ([] @ [''age:=30'', ''x-api-key:secret'']). \<forall>w. PATTERN_match u \<noteq> Some (''name'', '':'', w)"
    and p2: "\<forall>u\<in>set [''x-api-key:secret'']. \<forall>s w. PATTERN_match u = Some (''age'', s, w) \<longrightarrow> s = '':''"
    and h2: "\<forall>u\<in>set ([''name=Alice''] @ [''x-api-key:secret'']). \<forall>w. PATTERN_match u \<noteq> Some (''age'', '':'', w)"
    and h3: "\<forall>u\<in>set ([]::string list). \<forall>w. PATTERN_match u \<noteq> Some (''x-api-key'', '':'', w)"
    and p3: "\<forall>u\<in>set ([''name=Alice'', ''age:=30''] @ []). \<forall>s w. PATTERN_match u = Some (''x-api-key'', s, w) \<longrightarrow> s = '':''"
    by (simp_all add: PATTERN_match_eq is_sep_char_def)
  have a: "map_of ?P ''name'' = Some (JStr ''Alice'') \<and> map_of ?H ''name'' = None"
    using parse_items_routes_each_item
      [where loads = sample_loads and pre = "[]" and t = "''name=Alice''"
         and post = "[''age:=30'', ''x-api-key:secret'']" and ps = ?P and hs = ?H
         and k = "''name''" and v = "''Alice''"]
      run1 k1 t1 p1 h1
    by blast
  have b: "map_of ?P ''age'' = Some (JInt 30) \<and> map_of ?H ''age'' = None"
    using parse_items_routes_each_item
      [where loads = sample_loads and pre = "[''name=Alice'']" and t = "''age:=30''"
         and post = "[''x-api-key:secret'']" and ps = ?P and hs = ?H
         and k = "''age''" and v = "''30''" and j = "JInt 30"]
      run2 k2 t2 p2 h2 thirty empty
    by blast
  have c: "map_of ?H ''x-api-key'' = Some ''secret'' \<and> map_of ?P ''x-api-key'' = None"
    using parse_items_routes_each_item
      [where loads = sample_loads and pre = "[''name=Alice'', ''age:=30'']" and t = "''x-api-key:secret''"
         and post = "[]" and ps = ?P and hs = ?H
         and k = "''x-api-key''" and v = "''secret''"]
      run3 k3 t3 v3 p3 h3
    by blast
  show ?thesis using run2 a b c by blast
qed

text \<open>
  The claim as the specification words it, no header entry for the key of any item
  \<open>k=v\<close> of an accepted list, fails when another item of the list is a header with the
  same key: the two dictionaries are filled independently.
\<close>

theorem same_key_in_both_dictionaries_counterexample:
  "parse_items sample_loads [''k=a'', ''k:b''] = Inr ([(''k'', JStr ''a'')], [(''k'', ''b'')])"
  by (simp add: parse_items_def PATTERN_match_eq is_sep_char_def)

text \<open>
  \<^bold>\<open>C2\<close>. The separator \<^verbatim>\<open>:=\<close> is to win over \<^verbatim>\<open>:\<close> for every value text. With
  a value it does (\<open>colon_equals_with_value\<close>). With the empty value it does not: after
  \<^verbatim>\<open>:=\<close> nothing is left for \<^verbatim>\<open>(.+)\<close>, the matcher goes back to the alternative
  \<^verbatim>\<open>:\<close>, and the item \<^verbatim>\<open>a:=\<close> matches as the header \<open>a\<close> with the value \<open>=\<close>, the
  very reading the claim excludes.
\<close>

theorem colon_equals_alone_matches_as_header:
  "PATTERN_match ''a:='' = Some (''a'', '':'', ''='')"
  by (simp add: PATTERN_match_eq is_sep_char_def)

text \<open>
  \<^bold>\<open>C3\<close>. Parsing is to be all-or-nothing: a list with one malformed item among valid
  ones fails as a whole. It does whenever \<^verbatim>\<open>parse\<close> raises on the malformed item
  (\<open>first_rejected_item_aborts\<close>). The item \<^verbatim>\<open>k:=\<close>, a raw JSON item without a value,
  is malformed and \<^verbatim>\<open>parse\<close> does not raise on it: the list is accepted and both
  dictionaries come back filled, whatever the decoder.
\<close>

theorem malformed_item_among_valid_ones_accepted:
  "parse_items loads [''name=Alice'', ''k:=''] =
     Inr ([(''name'', JStr ''Alice'')], [(''k'', ''='')])"
  by (simp add: parse_items_def PATTERN_match_eq is_sep_char_def)

text \<open>
  \<^bold>\<open>C4\<close>. An item \<open>k:=v\<close> whose \<open>v\<close> is not valid JSON is to fail with "Invalid JSON
  value". With a non-empty \<open>v\<close> that the decoder rejects it does, and an unmatched item
  fails with "Invalid item" (\<open>failures_of_parse\<close>). The empty \<open>v\<close> is not valid JSON, and
  the item \<^verbatim>\<open>k:=\<close> raises nothing: the decoder is never called and the item becomes a
  header.
\<close>

theorem empty_json_value_raises_nothing:
  "parse loads ''k:='' ([], []) = Inr ([], [(''k'', ''='')])"
  by (simp add: PATTERN_match_eq is_sep_char_def)

text \<open>
  \<^bold>\<open>C10\<close>. An item that ends with its separator. \<^verbatim>\<open>k=\<close> and \<^verbatim>\<open>k:\<close> raise "Invalid
  item", as the claim says. \<^verbatim>\<open>k:=\<close> does not: it is accepted and stored as the header
  \<open>k\<close> with value \<open>=\<close>.
\<close>

theorem empty_value_after_colon_equals_accepted:
  "parse_items loads [''k=''] = Inl (InvalidItem ''k='')
   \<and> parse_items loads [''k:''] = Inl (InvalidItem ''k:'')
   \<and> parse_items loads [''k:=''] = Inr ([], [(''k'', ''='')])"
  by (simp add: parse_items_def PATTERN_match_eq is_sep_char_def)


section \<open>The claims about the dispatcher\<close>

text \<open>
  \<^bold>\<open>C5\<close>. A method outside \<^verbatim>\<open>METHODS\<close> never reaches the transport.
  \<^verbatim>\<open>Client.invoke\<close> raises the \<^verbatim>\<open>ValueError\<close> "Unsupported method" having done
  nothing but create the HTTP client object: no request is sent and no chunk is read,
  so the transport is invoked zero times. \<^verbatim>\<open>main\<close> refuses the method before that,
  with \<^verbatim>\<open>parser.error\<close>, and does nothing to the outside at all.
\<close>

theorem unsupported_method_never_reaches_transport:
  assumes "m \<notin> set METHODS"
  shows "invoke w \<lparr>url = u, method_name = m, params = ps, headers = hs\<rparr> verbose =
           ([HttpClientOpened (if hs = [] then None else Some hs)], Inl (UnsupportedMethod m))
       \<and> filter is_transport_call
            (fst (invoke w \<lparr>url = u, method_name = m, params = ps, headers = hs\<rparr> verbose)) = []
       \<and> main w u m items verbose = ([], InvalidMethodExit m)"
  using assms by (simp add: invoke_def main_def METHODS_def)

theorem unsupported_method_never_reaches_transport_witness:
  "invoke sample_world \<lparr>url = ''http://agent'', method_name = ''tasks/get'', params = [], headers = []\<rparr> False =
           ([HttpClientOpened None], Inl (UnsupportedMethod ''tasks/get''))
       \<and> filter is_transport_call
            (fst (invoke sample_world \<lparr>url = ''http://agent'', method_name = ''tasks/get'', params = [], headers = []\<rparr> False)) = []
       \<and> main sample_world ''http://agent'' ''tasks/get'' [''name=Alice''] False = ([], InvalidMethodExit ''tasks/get'')"
proof -
  have h: "''tasks/get'' \<notin> set METHODS" by (simp add: METHODS_def)
  show ?thesis
    using unsupported_method_never_reaches_transport
      [OF h, of sample_world "''http://agent''" "[]" "[]" False "[''name=Alice'']"]
    by simp
qed

subsection \<open>The two loops\<close>

lemma print_chunks_eq:
  "print_chunks w es ending =
     (concat (map (\<lambda>e. ChunkReceived e # print_json w (ResponseModel e)) es),
      case ending of None \<Rightarrow> Inr () | Some e \<Rightarrow> Inl e)"
  by (induction es) simp_all

lemma print_chunk_results_all:
  assumes "\<forall>e\<in>set es. \<exists>r. get_result w e = Inr r"
  shows "print_chunk_results w es ending =
     (concat (map (\<lambda>e. case get_result w e of
                          Inr r \<Rightarrow> ChunkReceived e # print_json w (PayloadModel r)
                        | Inl _ \<Rightarrow> [ChunkReceived e]) es),
      case ending of None \<Rightarrow> Inr () | Some e \<Rightarrow> Inl e)"
  using assms by (induction es) (auto split: prod.splits sum.splits)

lemma print_chunk_results_stop:
  assumes "\<forall>e\<in>set pre. \<exists>r. get_result w e = Inr r" and "get_result w bad = Inl err"
  shows "print_chunk_results w (pre @ bad # post) ending =
     (concat (map (\<lambda>e. case get_result w e of
                          Inr r \<Rightarrow> ChunkReceived e # print_json w (PayloadModel r)
                        | Inl _ \<Rightarrow> [ChunkReceived e]) (pre @ [bad])),
      Inl err)"
  using assms by (induction pre) (auto split: prod.splits sum.splits)

text \<open>
  \<^bold>\<open>C6\<close>. In a streaming call every envelope is printed right after it is received
  and before the next one is awaited, in the order of arrival, none left out and none
  held back. Verbosely the envelope itself is printed, after the line
  \<^verbatim>\<open>Response:\<close>; otherwise its result or error payload is, the envelopes being error
  responses and success responses, the two classes a streaming call yields. The last
  part says where \<^verbatim>\<open>get_result\<close> would stop the loop, were a chunk of another class
  to arrive: at that chunk, with the chunks before it printed in order.
\<close>

theorem streaming_output_in_arrival_order:
  "show_response w (AsyncIterator es ending) True =
     (Print ''Response:'' # concat (map (\<lambda>e. ChunkReceived e # print_json w (ResponseModel e)) es),
      case ending of None \<Rightarrow> Inr () | Some x \<Rightarrow> Inl x)
   \<and> ((\<forall>e\<in>set es. \<exists>r. get_result w e = Inr r) \<longrightarrow>
        show_response w (AsyncIterator es ending) False =
          (concat (map (\<lambda>e. case get_result w e of
                               Inr r \<Rightarrow> ChunkReceived e # print_json w (PayloadModel r)
                             | Inl _ \<Rightarrow> [ChunkReceived e]) es),
           case ending of None \<Rightarrow> Inr () | Some x \<Rightarrow> Inl x))
   \<and> ((\<forall>e\<in>set pre. \<exists>r. get_result w e = Inr r) \<and> get_result w bad = Inl err \<longrightarrow>
        show_response w (AsyncIterator (pre @ bad # post) ending) False =
          (concat (map (\<lambda>e. case get_result w e of
                               Inr r \<Rightarrow> ChunkReceived e # print_json w (PayloadModel r)
                             | Inl _ \<Rightarrow> [ChunkReceived e]) (pre @ [bad])),
           Inl err))"
proof (intro conjI impI)
  show "show_response w (AsyncIterator es ending) True =
     (Print ''Response:'' # concat (map (\<lambda>e. ChunkReceived e # print_json w (ResponseModel e)) es),
      case ending of None \<Rightarrow> Inr () | Some x \<Rightarrow> Inl x)"
    by (simp add: show_response_def is_async_iterator_def print_chunks_eq)
next
  assume "\<forall>e\<in>set es. \<exists>r. get_result w e = Inr r"
  then show "show_response w (AsyncIterator es ending) False =
          (concat (map (\<lambda>e. case get_result w e of
                               Inr r \<Rightarrow> ChunkReceived e # print_json w (PayloadModel r)
                             | Inl _ \<Rightarrow> [ChunkReceived e]) es),
           case ending of None \<Rightarrow> Inr () | Some x \<Rightarrow> Inl x)"
    by (simp add: show_response_def is_async_iterator_def print_chunk_results_all)
next
  assume "(\<forall>e\<in>set pre. \<exists>r. get_result w e = Inr r) \<and> get_result w bad = Inl err"
  then show "show_response w (AsyncIterator (pre @ bad # post) ending) False =
          (concat (map (\<lambda>e. case get_result w e of
                               Inr r \<Rightarrow> ChunkReceived e # print_json w (PayloadModel r)
                             | Inl _ \<Rightarrow> [ChunkReceived e]) (pre @ [bad])),
           Inl err)"
    using print_chunk_results_stop [of pre w bad err post ending]
    by (simp add: show_response_def is_async_iterator_def)
qed

theorem streaming_output_in_arrival_order_witness:
  "show_response sample_world
     (AsyncIterator [SendStreamingMessageSuccessResponse (JStr ''one''),
                     JSONRPCErrorResponse (JStr ''two'')] None) False =
     ([ChunkReceived (SendStreamingMessageSuccessResponse (JStr ''one'')), Print ''one'',
       ChunkReceived (JSONRPCErrorResponse (JStr ''two'')), Print ''two''], Inr ())
   \<and> show_response sample_world
     (AsyncIterator ([SendStreamingMessageSuccessResponse (JStr ''one'')] @ OtherResponse JNull
                       # [SendStreamingMessageSuccessResponse (JStr ''late'')]) None) False =
     ([ChunkReceived (SendStreamingMessageSuccessResponse (JStr ''one'')), Print ''one'',
       ChunkReceived (OtherResponse JNull)], Inl (UnsupportedResponse ''response''))"
proof -
  have ok: "\<forall>e\<in>set [SendStreamingMessageSuccessResponse (JStr ''one''),
                      JSONRPCErrorResponse (JStr ''two'')]. \<exists>r. get_result sample_world e = Inr r"
    by (simp add: get_result_def)
  have ok1: "\<forall>e\<in>set [SendStreamingMessageSuccessResponse (JStr ''one'')].
               \<exists>r. get_result sample_world e = Inr r"
    by (simp add: get_result_def)
  have bad: "get_result sample_world (OtherResponse JNull) = Inl (UnsupportedResponse ''response'')"
    by (simp add: get_result_def sample_world_def sample_dump_def)
  have g1: "get_result sample_world (SendStreamingMessageSuccessResponse (JStr ''one'')) = Inr (JStr ''one'')"
    and g2: "get_result sample_world (JSONRPCErrorResponse (JStr ''two'')) = Inr (JStr ''two'')"
    by (simp_all add: get_result_def)
  have p: "print_json sample_world (PayloadModel (JStr s)) = [Print s]" for s
    by (simp add: print_json_def sample_world_def sample_dump_def)
  note T = streaming_output_in_arrival_order [of sample_world _ None]
  have a: "show_response sample_world
     (AsyncIterator [SendStreamingMessageSuccessResponse (JStr ''one''),
                     JSONRPCErrorResponse (JStr ''two'')] None) False =
     ([ChunkReceived (SendStreamingMessageSuccessResponse (JStr ''one'')), Print ''one'',
       ChunkReceived (JSONRPCErrorResponse (JStr ''two'')), Print ''two''], Inr ())"
    using T [THEN conjunct2, THEN conjunct1, THEN mp, OF ok] by (simp add: g1 g2 p)
  have b: "show_response sample_world
     (AsyncIterator ([SendStreamingMessageSuccessResponse (JStr ''one'')] @ OtherResponse JNull
                       # [SendStreamingMessageSuccessResponse (JStr ''late'')]) None) False =
     ([ChunkReceived (SendStreamingMessageSuccessResponse (JStr ''one'')), Print ''one'',
       ChunkReceived (OtherResponse JNull)], Inl (UnsupportedResponse ''response''))"
    using T [THEN conjunct2, THEN conjunct2, THEN mp, OF conjI, OF ok1 bad] by (simp add: g1 bad p)
  show ?thesis using a b by (rule conjI)
qed

subsection \<open>The HTTP client\<close>

lemma quiet_simps [simp]:
  "quiet []" "quiet (Print s # evs) = quiet evs" "quiet (ChunkReceived c # evs) = quiet evs"
  "quiet (SendMessage r # evs) = quiet evs" "quiet (SendMessageStreaming r # evs) = quiet evs"
  "quiet (xs @ ys) \<longleftrightarrow> quiet xs \<and> quiet ys"
  by (auto simp: quiet_def)

lemma quiet_print_json: "quiet (print_json w m)"
  by (simp add: print_json_def Let_def)

lemma quiet_show_request: "quiet (show_request w r v)"
  by (simp add: show_request_def quiet_print_json)

lemma quiet_print_chunks: "quiet (fst (print_chunks w es ending))"
  by (induction es) (simp_all add: print_chunks_eq quiet_print_json)

lemma quiet_print_chunk_results: "quiet (fst (print_chunk_results w es ending))"
  by (induction es) (auto simp: quiet_print_json split: prod.splits sum.splits)

lemma quiet_show_response: "quiet (fst (show_response w r v))"
  using quiet_print_chunks [of w "chunks r" "stream_end r"]
    quiet_print_chunk_results [of w "chunks r" "stream_end r"]
  by (auto simp: show_response_def quiet_print_json split: prod.splits sum.splits)

lemma invoke_opens_first:
  "\<exists>evs. fst (invoke w self verbose) =
           HttpClientOpened (if headers self = [] then None else Some (headers self)) # evs
         \<and> quiet evs"
proof -
  have shown: "quiet evs" if "show_response w r v = (evs, res)" for r v evs res
    using quiet_show_response [of w r v] that by simp
  show ?thesis
    using shown quiet_show_request [of w]
    by (auto simp: invoke_def Let_def split: option.splits sum.splits prod.splits)
qed

lemma open_clients_invoke: "open_clients (fst (invoke w self verbose)) = 1"
  using invoke_opens_first [of w self verbose] by (auto simp: open_clients_def quiet_def)

lemma closed_invoke: "filter is_closed (fst (invoke w self verbose)) = []"
  using invoke_opens_first [of w self verbose] by (auto simp: quiet_def)

lemma main_events:
  "fst (main w args_url args_method args_items args_verbose) =
     (if args_method \<notin> set METHODS then []
      else case parse_items (json_loads w) args_items of
             Inl exc \<Rightarrow> []
           | Inr (ps, hs) \<Rightarrow>
               fst (invoke w \<lparr>url = args_url, method_name = args_method, params = ps, headers = hs\<rparr>
                      args_verbose))"
  by (auto simp: main_def split: sum.splits prod.splits)

text \<open>
  \<^bold>\<open>C7\<close>, as the code has it. \<^verbatim>\<open>Client.invoke\<close> opens the HTTP client exactly once,
  as its first step, and closes it on no path: whatever the method, the parameters,
  the answers of the transport and the verbosity, and however the call ends, nothing
  after the first event opens or closes a client, so one client is open when
  \<^verbatim>\<open>invoke\<close> is left. \<^verbatim>\<open>main\<close> closes nothing either: when it ends, by returning,
  by an uncaught exception or by \<^verbatim>\<open>parser.error\<close>, the client is still open if
  \<^verbatim>\<open>invoke\<close> was reached, and none was opened otherwise.
\<close>

theorem transport_never_released:
  "(\<exists>evs. fst (invoke w self verbose) =
            HttpClientOpened (if headers self = [] then None else Some (headers self)) # evs
          \<and> filter is_opened evs = [] \<and> filter is_closed evs = [])
   \<and> open_clients (fst (invoke w self verbose)) = 1
   \<and> filter is_closed (fst (main w args_url args_method args_items args_verbose)) = []
   \<and> open_clients (fst (main w args_url args_method args_items args_verbose)) =
       (if args_method \<notin> set METHODS then 0
        else case parse_items (json_loads w) args_items of Inl exc \<Rightarrow> 0 | Inr accepted \<Rightarrow> 1)"
proof (intro conjI)
  show "\<exists>evs. fst (invoke w self verbose) =
            HttpClientOpened (if headers self = [] then None else Some (headers self)) # evs
          \<and> filter is_opened evs = [] \<and> filter is_closed evs = []"
    using invoke_opens_first [of w self verbose] by (simp add: quiet_def)
  show "open_clients (fst (invoke w self verbose)) = 1"
    by (rule open_clients_invoke)
  show "filter is_closed (fst (main w args_url args_method args_items args_verbose)) = []"
    by (simp add: main_events closed_invoke split: sum.splits prod.splits)
  show "open_clients (fst (main w args_url args_method args_items args_verbose)) =
       (if args_method \<notin> set METHODS then 0
        else case parse_items (json_loads w) args_items of Inl exc \<Rightarrow> 0 | Inr accepted \<Rightarrow> 1)"
    by (simp add: main_events open_clients_invoke split: sum.splits prod.splits)
      (simp add: open_clients_def)
qed

text \<open>
  The claim as the specification words it, the connection released on every exit
  path, fails on each kind of exit: a unary call that succeeds, a stream drained to its
  end, and a call that fails all end with the client opened and not closed.
\<close>

theorem transport_left_open_counterexample:
  "invoke sample_world
     \<lparr>url = ''http://agent'', method_name = ''message/send'', params = [], headers = []\<rparr> False =
     ([HttpClientOpened None, SendMessage (SendMessageRequest ''0001'' (JDict [])), Print ''pong''],
      Inr ())
   \<and> invoke sample_world
     \<lparr>url = ''http://agent'', method_name = ''message/stream'', params = [], headers = []\<rparr> False =
     ([HttpClientOpened None, SendMessageStreaming (SendStreamingMessageRequest ''0001'' (JDict [])),
       ChunkReceived (SendStreamingMessageSuccessResponse (JStr ''one'')), Print ''one'',
       ChunkReceived (JSONRPCErrorResponse (JStr ''two'')), Print ''two''],
      Inr ())
   \<and> invoke sample_world
     \<lparr>url = ''http://agent'', method_name = ''tasks/get'', params = [], headers = []\<rparr> False =
     ([HttpClientOpened None], Inl (UnsupportedMethod ''tasks/get''))"
  by (simp add: invoke_def show_request_def show_response_def is_async_iterator_def get_result_def
        print_json_def sample_world_def sample_dump_def)

end
